theory Spec2Isabelle
  imports Main
begin

section \<open>Python strings and built-ins used by bot.py\<close>

text \<open>
  Strings are \<^typ>\<open>string\<close>: one \<^typ>\<open>char\<close> per code point below 256.  The URLs a
  browser hands back are serialised in ASCII, and every pattern the program searches for
  is ASCII, so the characters outside this range play no part in what follows.
\<close>

text \<open>
  \<^verbatim>\<open>str.lower()\<close> below 256: A..Z and the capital letters 0xC0..0xDE, the multiplication
  sign 0xD7 apart, move up by 32; the rest stays.
\<close>

definition lower_char :: "char \<Rightarrow> char" where
  "lower_char c =
     (let n = (of_char c :: nat) in
        if (65 \<le> n \<and> n \<le> 90) \<or> (192 \<le> n \<and> n \<le> 222 \<and> n \<noteq> 215)
        then char_of (n + 32) else c)"

definition lower :: "string \<Rightarrow> string" where
  "lower s = map lower_char s"

text \<open>\<^verbatim>\<open>s.startswith(p)\<close>.\<close>

fun startswith :: "string \<Rightarrow> string \<Rightarrow> bool" where
  "startswith s [] = True"
| "startswith [] (p # ps) = False"
| "startswith (c # cs) (p # ps) = (c = p \<and> startswith cs ps)"

text \<open>\<^verbatim>\<open>p in s\<close> for two strings: \<open>p\<close> occurs in \<open>s\<close> as a contiguous block.\<close>

fun contains :: "string \<Rightarrow> string \<Rightarrow> bool" where
  "contains [] p = (p = [])"
| "contains (c # cs) p = (startswith (c # cs) p \<or> contains cs p)"

text \<open>
  The characters \<^verbatim>\<open>str.strip()\<close> treats as white space: tab, line feed, vertical tab,
  form feed, carriage return, the four separators 0x1C..0x1F, space, NEL (0x85) and the
  no-break space (0xA0).
\<close>

definition is_space :: "char \<Rightarrow> bool" where
  "is_space c = ((of_char c :: nat) \<in> set [9, 10, 11, 12, 13, 28, 29, 30, 31, 32, 133, 160])"

definition strip :: "string \<Rightarrow> string" where
  "strip s = rev (dropWhile is_space (rev (dropWhile is_space s)))"

text \<open>\<^verbatim>\<open>int()\<close> skips the same characters around a number, the four separators apart.\<close>

definition is_int_space :: "char \<Rightarrow> bool" where
  "is_int_space c = ((of_char c :: nat) \<in> set [9, 10, 11, 12, 13, 32, 133, 160])"

definition is_digit :: "char \<Rightarrow> bool" where
  "is_digit c = (48 \<le> (of_char c :: nat) \<and> (of_char c :: nat) \<le> 57)"

text \<open>
  The digits of a decimal literal as \<^verbatim>\<open>int()\<close> reads them: at least one digit, and a
  single underscore allowed between two digits.  The flag says whether the character
  just read was a digit.
\<close>

fun parse_digits :: "bool \<Rightarrow> nat \<Rightarrow> string \<Rightarrow> nat option" where
  "parse_digits after_digit acc [] = (if after_digit then Some acc else None)"
| "parse_digits after_digit acc (c # cs) =
     (if is_digit c then parse_digits True (acc * 10 + (of_char c - 48)) cs
      else if c = CHR ''_'' \<and> after_digit then parse_digits False acc cs
      else None)"

text \<open>
  \<^verbatim>\<open>int(s)\<close> for a string: surrounding white space is dropped, one sign may lead, the
  rest must be digits, and there may be at most 4300 of them (the limit of the
  interpreter on the conversion of decimal strings).  \<open>None\<close> stands for the
  \<^verbatim>\<open>ValueError\<close>.
\<close>

definition py_int :: "string \<Rightarrow> int option" where
  "py_int s =
     (let t = rev (dropWhile is_int_space (rev (dropWhile is_int_space s))) in
        if length (filter is_digit t) > 4300 then None
        else
          (case t of
             [] \<Rightarrow> None
           | c # cs \<Rightarrow>
               if c = CHR ''-'' then map_option (\<lambda>n. - int n) (parse_digits False 0 cs)
               else if c = CHR ''+'' then map_option int (parse_digits False 0 cs)
               else map_option int (parse_digits False 0 (c # cs))))"


section \<open>Errors, events and the rendered page\<close>

datatype exn = WebDriverError | TelegramError | ValueError

text \<open>
  What \<^verbatim>\<open>img.get_attribute(name)\<close> does for one attribute of one element: it raises
  (the element went stale, the session died), returns \<^verbatim>\<open>None\<close>, or returns a string.
\<close>

datatype attr = AttrRaises | AttrNone | AttrStr string

record img_element =
  src_attr :: attr
  alt_attr :: attr
  width_attr :: attr
  height_attr :: attr

definition get_attribute :: "attr \<Rightarrow> exn + string option" where
  "get_attribute a =
     (case a of AttrRaises \<Rightarrow> Inl WebDriverError | AttrNone \<Rightarrow> Inr None | AttrStr s \<Rightarrow> Inr (Some s))"

text \<open>The messages of the bot, by their role; the texts themselves are fixed literals.\<close>

datatype message =
    AccountError
  | LimitReached
  | InvalidUrl
  | Processing
  | NoImagesFound
  | FoundImages nat
  | DownloadComplete nat nat int
  | SendFailed
  | SomethingWrong

text \<open>
  Everything the program does to the outside world, in the order it does it.  A call is
  recorded when it is made, whether or not it then raises; \<open>SessionCreated\<close> is recorded
  when \<^verbatim>\<open>webdriver.Chrome(...)\<close> has returned a driver.
\<close>

datatype event =
    InstallDriver
  | StartChrome
  | SessionCreated
  | ExecuteScript
  | Get string
  | FindImages
  | Quit
  | Sleep nat
  | UsersSelect
  | UsersInsert
  | UsersUpdate
  | UsageSelect nat
  | LogUsage nat string nat
  | ReplyText message
  | EditText message
  | SendPhoto string nat nat
  | SendMessage nat string


section \<open>LinkedInScraper.extract\_images\<close>

subsection \<open>The filter applied to one image element\<close>

definition exclude_patterns :: "string list" where
  "exclude_patterns =
     [''linkedin.com/in/'', ''/company-logo/'', ''/vector/'', ''sprite'',
      ''logo'', ''icon'', ''emoji'', ''reaction'']"

text \<open>\<^verbatim>\<open>any(pattern in src.lower() for pattern in exclude_patterns)\<close>.\<close>

definition should_exclude :: "string \<Rightarrow> bool" where
  "should_exclude src = list_ex (\<lambda>pattern. contains (lower src) pattern) exclude_patterns"

text \<open>
  The block that reads the size: the value is whether the \<^verbatim>\<open>continue\<close> of the small
  image is reached; every exception of the block is raised to \<open>size_check\<close>.
  \<^verbatim>\<open>if width and height\<close> holds when neither is \<^verbatim>\<open>None\<close> or the empty string.
\<close>

definition size_check_body :: "img_element \<Rightarrow> exn + bool" where
  "size_check_body img =
     (case get_attribute (width_attr img) of
        Inl e \<Rightarrow> Inl e
      | Inr width \<Rightarrow>
          (case get_attribute (height_attr img) of
             Inl e \<Rightarrow> Inl e
           | Inr height \<Rightarrow>
               (case (width, height) of
                  (Some ws, Some hs) \<Rightarrow>
                    if ws \<noteq> [] \<and> hs \<noteq> [] then
                      (case py_int ws of
                         None \<Rightarrow> Inl ValueError
                       | Some w \<Rightarrow>
                           (case py_int hs of
                              None \<Rightarrow> Inl ValueError
                            | Some h \<Rightarrow> Inr (w < 50 \<or> h < 50)))
                    else Inr False
                | _ \<Rightarrow> Inr False)))"

text \<open>The bare \<^verbatim>\<open>except: pass\<close> around it: an exception means the image is kept.\<close>

definition size_check :: "img_element \<Rightarrow> bool" where
  "size_check img = (case size_check_body img of Inl e \<Rightarrow> False | Inr skip \<Rightarrow> skip)"

text \<open>
  The body of the loop over the image elements: \<open>Inr (Some src)\<close> when the source is
  appended to \<^verbatim>\<open>images\<close>, \<open>Inr None\<close> on every \<^verbatim>\<open>continue\<close> and on the branch that is not
  an HTTP URL, \<open>Inl\<close> when reading \<^verbatim>\<open>src\<close> or \<^verbatim>\<open>alt\<close> raises.
\<close>

definition process_img_body :: "img_element \<Rightarrow> exn + string option" where
  "process_img_body img =
     (case get_attribute (src_attr img) of
        Inl e \<Rightarrow> Inl e
      | Inr src_opt \<Rightarrow>
          (case get_attribute (alt_attr img) of
             Inl e \<Rightarrow> Inl e
           | Inr alt \<Rightarrow>
               (case src_opt of
                  None \<Rightarrow> Inr None
                | Some src \<Rightarrow>
                    if src = [] \<or> startswith src ''data:'' then Inr None
                    else if should_exclude src then Inr None
                    else if startswith src ''http'' then
                      (if size_check img then Inr None else Inr (Some src))
                    else Inr None)))"

text \<open>The \<^verbatim>\<open>except Exception\<close> of the loop body: the element is skipped.\<close>

definition process_img :: "img_element \<Rightarrow> string option" where
  "process_img img = (case process_img_body img of Inl e \<Rightarrow> None | Inr r \<Rightarrow> r)"

text \<open>The loop itself, with \<^verbatim>\<open>images\<close> as the accumulator.\<close>

fun collect_images :: "img_element list \<Rightarrow> string list \<Rightarrow> string list" where
  "collect_images [] images = images"
| "collect_images (img # rest) images =
     (case process_img img of
        None \<Rightarrow> collect_images rest images
      | Some src \<Rightarrow> collect_images rest (images @ [src]))"

subsection \<open>Removing duplicates\<close>

fun dedupe_loop :: "string list \<Rightarrow> string set \<Rightarrow> string list \<Rightarrow> string list" where
  "dedupe_loop [] seen unique_images = unique_images"
| "dedupe_loop (img # rest) seen unique_images =
     (if img \<notin> seen then dedupe_loop rest (insert img seen) (unique_images @ [img])
      else dedupe_loop rest seen unique_images)"

definition dedupe :: "string list \<Rightarrow> string list" where
  "dedupe images = dedupe_loop images {} []"

subsection \<open>The browser session\<close>

text \<open>
  What the browser does in one run.  Each field is the outcome of one call of the
  routine: \<open>False\<close> (or \<open>None\<close>) means the call raises.  The two passes that only write
  to the log (the listing of all sources and the search for background images) catch
  their own exceptions and change no variable that is read later, so they have no
  field here.
\<close>

record browser =
  install_ok :: bool
  chrome_ok :: bool
  stealth_ok :: bool
  get_ok :: bool
  scroll_ok :: "nat \<Rightarrow> bool"
  find_imgs :: "img_element list option"
  quit_ok :: bool

text \<open>\<^verbatim>\<open>for i in range(3)\<close>: scroll to the bottom, then sleep two seconds.\<close>

fun scroll_loop :: "browser \<Rightarrow> nat list \<Rightarrow> (exn + unit) \<times> event list" where
  "scroll_loop b [] = (Inr (), [])"
| "scroll_loop b (i # rest) =
     (if scroll_ok b i then
        (case scroll_loop b rest of (r, evs) \<Rightarrow> (r, [ExecuteScript, Sleep 2] @ evs))
      else (Inl WebDriverError, [ExecuteScript]))"

text \<open>
  The body of the inner \<^verbatim>\<open>try\<close>: how it ends, the value of \<^verbatim>\<open>images\<close> at that moment,
  and the events.
\<close>

definition load_and_collect ::
  "browser \<Rightarrow> string \<Rightarrow> (exn + unit) \<times> string list \<times> event list" where
  "load_and_collect b post_url =
     (if \<not> get_ok b then (Inl WebDriverError, [], [Get post_url])
      else
        (case scroll_loop b [0, 1, 2] of
           (Inl e, evs) \<Rightarrow> (Inl e, [], [Get post_url, Sleep 8] @ evs)
         | (Inr u, evs) \<Rightarrow>
             (case find_imgs b of
                None \<Rightarrow> (Inl WebDriverError, [], [Get post_url, Sleep 8] @ evs @ [FindImages])
              | Some img_elements \<Rightarrow>
                  (Inr (), collect_images img_elements [],
                   [Get post_url, Sleep 8] @ evs @ [FindImages]))))"

text \<open>
  The inner \<^verbatim>\<open>try\<close> with its \<^verbatim>\<open>except Exception\<close> (log and go on) and its
  \<^verbatim>\<open>finally: driver.quit()\<close>, followed by the removal of duplicates.  An exception of
  \<^verbatim>\<open>quit\<close> leaves the block.
\<close>

definition scrape :: "browser \<Rightarrow> string \<Rightarrow> (exn + string list) \<times> event list" where
  "scrape b post_url =
     (case load_and_collect b post_url of
        (r, images, evs) \<Rightarrow>
          if quit_ok b then (Inr (dedupe images), evs @ [Quit])
          else (Inl WebDriverError, evs @ [Quit]))"

text \<open>The body of the outer \<^verbatim>\<open>try\<close>, from the driver set-up to the \<^verbatim>\<open>return\<close>.\<close>

definition extract_images_body :: "browser \<Rightarrow> string \<Rightarrow> (exn + string list) \<times> event list" where
  "extract_images_body b post_url =
     (if \<not> install_ok b then (Inl WebDriverError, [InstallDriver])
      else if \<not> chrome_ok b then (Inl WebDriverError, [InstallDriver, StartChrome])
      else if \<not> stealth_ok b then
        (Inl WebDriverError, [InstallDriver, StartChrome, SessionCreated, ExecuteScript])
      else
        (case scrape b post_url of
           (r, evs) \<Rightarrow> (r, [InstallDriver, StartChrome, SessionCreated, ExecuteScript] @ evs)))"

text \<open>The outer \<^verbatim>\<open>except Exception\<close>: log and return the empty list.\<close>

definition extract_images :: "browser \<Rightarrow> string \<Rightarrow> (exn + string list) \<times> event list" where
  "extract_images b post_url =
     (case extract_images_body b post_url of
        (Inl e, evs) \<Rightarrow> (Inr [], evs)
      | (Inr unique_images, evs) \<Rightarrow> (Inr unique_images, evs))"


subsection \<open>Notions used to state the properties of the extraction\<close>

text \<open>The position of the first occurrence of \<open>x\<close> in \<open>xs\<close>.\<close>

definition first_index :: "'a list \<Rightarrow> 'a \<Rightarrow> nat" where
  "first_index xs x = length (takeWhile (\<lambda>y. y \<noteq> x) xs)"

text \<open>A run leaves the session open when a driver was created and never quit.\<close>

definition session_leaked :: "event list \<Rightarrow> bool" where
  "session_leaked evs = (SessionCreated \<in> set evs \<and> Quit \<notin> set evs)"

text \<open>Every call of the routine to the browser returns.\<close>

definition all_calls_return :: "browser \<Rightarrow> bool" where
  "all_calls_return b =
     (install_ok b \<and> chrome_ok b \<and> stealth_ok b \<and> get_ok b \<and>
      scroll_ok b 0 \<and> scroll_ok b 1 \<and> scroll_ok b 2 \<and> find_imgs b \<noteq> None \<and> quit_ok b)"

text \<open>
  A browser that starts and then fails on the first script, the one that hides
  \<^verbatim>\<open>navigator.webdriver\<close>: the renderer has crashed, or the session timed out.
\<close>

definition crash_after_launch :: browser where
  "crash_after_launch =
     \<lparr>install_ok = True, chrome_ok = True, stealth_ok = False, get_ok = True,
      scroll_ok = (\<lambda>i. True), find_imgs = Some [], quit_ok = True\<rparr>"


section \<open>The quota store\<close>

record db_user =
  db_id :: nat

text \<open>
  What the store and the chat platform do during one request.  For a store call,
  \<open>None\<close> means that \<^verbatim>\<open>execute()\<close> raises and \<open>Some rows\<close> is \<^verbatim>\<open>response.data\<close>; a row
  of \<^verbatim>\<open>usage_logs\<close> is its id.  \<open>telegram_ok\<close> says of each call of the chat API whether
  it returns.  \<open>chrome\<close> is the browser the scraper gets.
\<close>

record world =
  users_select :: "db_user list option"
  users_insert :: "db_user list option"
  users_update :: "db_user list option"
  usage_select :: "nat \<Rightarrow> nat list option"
  usage_insert :: "nat list option"
  telegram_ok :: "event \<Rightarrow> bool"
  chrome :: browser

text \<open>\<^verbatim>\<open>response.data[0] if response.data else None\<close>.\<close>

definition first_row :: "'a list \<Rightarrow> 'a option" where
  "first_row rows = (case rows of [] \<Rightarrow> None | r # rest \<Rightarrow> Some r)"

text \<open>
  \<^verbatim>\<open>get_or_create_user\<close>.  The call of \<^verbatim>\<open>set_user_context\<close> before the look-up catches its
  own exception and returns nothing.
\<close>

definition get_or_create_user :: "world \<Rightarrow> db_user option \<times> event list" where
  "get_or_create_user w =
     (case users_select w of
        None \<Rightarrow> (None, [UsersSelect])
      | Some rows \<Rightarrow>
          if length rows = 0 then
            (case users_insert w of
               None \<Rightarrow> (None, [UsersSelect, UsersInsert])
             | Some inserted \<Rightarrow> (first_row inserted, [UsersSelect, UsersInsert]))
          else
            (case users_update w of
               None \<Rightarrow> (None, [UsersSelect, UsersUpdate])
             | Some updated \<Rightarrow> (first_row updated, [UsersSelect, UsersUpdate])))"

text \<open>\<^verbatim>\<open>log_usage\<close>: one insert into \<^verbatim>\<open>usage_logs\<close>; a failure is logged and gives \<^verbatim>\<open>None\<close>.\<close>

definition log_usage :: "world \<Rightarrow> nat \<Rightarrow> string \<Rightarrow> nat \<Rightarrow> nat option \<times> event list" where
  "log_usage w user_id post_url image_count =
     (case usage_insert w of
        None \<Rightarrow> (None, [LogUsage user_id post_url image_count])
      | Some rows \<Rightarrow> (first_row rows, [LogUsage user_id post_url image_count]))"

text \<open>\<^verbatim>\<open>get_today_usage\<close>: the number of rows of today, and 0 when the query raises.\<close>

definition get_today_usage :: "world \<Rightarrow> nat \<Rightarrow> nat \<times> event list" where
  "get_today_usage w user_id =
     (case usage_select w user_id of
        None \<Rightarrow> (0, [UsageSelect user_id])
      | Some rows \<Rightarrow> (length rows, [UsageSelect user_id]))"


section \<open>handle\_url\<close>

text \<open>One call of the chat API: the event, and \<^verbatim>\<open>TelegramError\<close> when it raises.\<close>

definition telegram :: "world \<Rightarrow> event \<Rightarrow> (exn + unit) \<times> event list" where
  "telegram w ev = (if telegram_ok w ev then (Inr (), [ev]) else (Inl TelegramError, [ev]))"

text \<open>
  The loop that sends the images.  \<open>n\<close> is \<^verbatim>\<open>len(images)\<close>, \<open>i\<close> the index of
  \<^verbatim>\<open>enumerate\<close>.  When \<^verbatim>\<open>send_photo\<close> raises, the link is sent as text, and whatever that
  call does is ignored.
\<close>

fun send_loop ::
  "world \<Rightarrow> nat \<Rightarrow> nat \<Rightarrow> string list \<Rightarrow> nat \<Rightarrow> nat \<Rightarrow> nat \<times> nat \<times> event list" where
  "send_loop w n i [] success_count failed_count = (success_count, failed_count, [])"
| "send_loop w n i (image_url # rest) success_count failed_count =
     (if telegram_ok w (SendPhoto image_url (i + 1) n) then
        (case send_loop w n (i + 1) rest (success_count + 1) failed_count of
           (s, f, evs) \<Rightarrow> (s, f, [SendPhoto image_url (i + 1) n, Sleep 1] @ evs))
      else
        (case send_loop w n (i + 1) rest success_count (failed_count + 1) of
           (s, f, evs) \<Rightarrow>
             (s, f, [SendPhoto image_url (i + 1) n, SendMessage (i + 1) image_url] @ evs)))"

text \<open>
  The delivery of a list of images that is not empty: the cap of ten, the status message,
  the loop, and the entry in the usage log.
\<close>

definition deliver ::
  "world \<Rightarrow> db_user \<Rightarrow> string \<Rightarrow> string list \<Rightarrow> (exn + nat \<times> nat) \<times> event list" where
  "deliver w user url found =
     (let images = take 10 found;
          status = EditText (FoundImages (length images))
      in
        if \<not> telegram_ok w status then (Inl TelegramError, [status])
        else
          (case send_loop w (length images) 0 images 0 0 of
             (success_count, failed_count, evs) \<Rightarrow>
               (Inr (success_count, failed_count),
                [status] @ evs @
                (if success_count > 0 \<or> failed_count > 0
                 then snd (log_usage w (db_id user) url success_count) else []))))"

text \<open>The body of the \<^verbatim>\<open>try\<close> of the handler.\<close>

definition process_post ::
  "world \<Rightarrow> db_user \<Rightarrow> nat \<Rightarrow> string \<Rightarrow> (exn + unit) \<times> event list" where
  "process_post w user today_usage url =
     (case extract_images (chrome w) url of
        (Inl e, evs) \<Rightarrow> (Inl e, evs)
      | (Inr images, evs) \<Rightarrow>
          if images = [] then
            (case telegram w (EditText NoImagesFound) of (r, tevs) \<Rightarrow> (r, evs @ tevs))
          else
            (case deliver w user url images of
               (Inl e, devs) \<Rightarrow> (Inl e, evs @ devs)
             | (Inr (success_count, failed_count), devs) \<Rightarrow>
                 (case telegram w
                         (if success_count > 0
                          then ReplyText (DownloadComplete success_count failed_count
                                            (4 - int today_usage))
                          else ReplyText SendFailed) of
                    (r, tevs) \<Rightarrow> (r, evs @ devs @ tevs))))"

text \<open>
  The handler of a text message.  An exception of a reply outside the \<^verbatim>\<open>try\<close>, or of the
  message sent by the \<^verbatim>\<open>except\<close> clause, leaves the handler.
\<close>

definition handle_url :: "world \<Rightarrow> string \<Rightarrow> (exn + unit) \<times> event list" where
  "handle_url w message_text =
     (case get_or_create_user w of
        (None, uevs) \<Rightarrow>
          (case telegram w (ReplyText AccountError) of (r, tevs) \<Rightarrow> (r, uevs @ tevs))
      | (Some user, uevs) \<Rightarrow>
          (case get_today_usage w (db_id user) of
             (today_usage, qevs) \<Rightarrow>
               if today_usage \<ge> 5 then
                 (case telegram w (ReplyText LimitReached) of
                    (r, tevs) \<Rightarrow> (r, uevs @ qevs @ tevs))
               else
                 (let url = strip message_text in
                    if \<not> contains url ''linkedin.com'' then
                      (case telegram w (ReplyText InvalidUrl) of
                         (r, tevs) \<Rightarrow> (r, uevs @ qevs @ tevs))
                    else
                      (case telegram w (ReplyText Processing) of
                         (Inl e, tevs) \<Rightarrow> (Inl e, uevs @ qevs @ tevs)
                       | (Inr u, tevs) \<Rightarrow>
                           (case process_post w user today_usage url of
                              (Inr v, pevs) \<Rightarrow> (Inr v, uevs @ qevs @ tevs @ pevs)
                            | (Inl e, pevs) \<Rightarrow>
                                (case telegram w (EditText SomethingWrong) of
                                   (r, xevs) \<Rightarrow>
                                     (r, uevs @ qevs @ tevs @ pevs @ xevs)))))))"


section \<open>Notions used to state the properties of the handler\<close>

text \<open>
  Kinds of events, the outcome and the events of one item of the delivery loop (an item
  is a pair of its index and its URL), and the property that a pause follows every
  attempt to send a photo before the next attempt.
\<close>

definition is_log_usage :: "event \<Rightarrow> bool" where
  "is_log_usage e = (case e of LogUsage u p c \<Rightarrow> True | _ \<Rightarrow> False)"

definition is_send_photo :: "event \<Rightarrow> bool" where
  "is_send_photo e = (case e of SendPhoto u i n \<Rightarrow> True | _ \<Rightarrow> False)"

definition is_sleep :: "event \<Rightarrow> bool" where
  "is_sleep e = (case e of Sleep s \<Rightarrow> True | _ \<Rightarrow> False)"

definition photo_sent :: "world \<Rightarrow> nat \<Rightarrow> nat \<times> string \<Rightarrow> bool" where
  "photo_sent w n item = telegram_ok w (SendPhoto (snd item) (fst item + 1) n)"

definition item_events :: "world \<Rightarrow> nat \<Rightarrow> nat \<times> string \<Rightarrow> event list" where
  "item_events w n item =
     (if photo_sent w n item
      then [SendPhoto (snd item) (fst item + 1) n, Sleep 1]
      else [SendPhoto (snd item) (fst item + 1) n, SendMessage (fst item + 1) (snd item)])"

fun delay_after_each_attempt :: "event list \<Rightarrow> bool" where
  "delay_after_each_attempt [] = True"
| "delay_after_each_attempt (e # rest) =
     ((if is_send_photo e then list_ex is_sleep (takeWhile (\<lambda>x. \<not> is_send_photo x) rest) else True)
      \<and> delay_after_each_attempt rest)"


section \<open>Concrete runs\<close>

definition photo :: "string \<Rightarrow> img_element" where
  "photo src =
     \<lparr>src_attr = AttrStr src, alt_attr = AttrStr ''photo'',
      width_attr = AttrStr ''800'', height_attr = AttrStr ''600''\<rparr>"

text \<open>A page with three images of a post, one of them twice, and a logo.\<close>

definition page_with_photos :: browser where
  "page_with_photos =
     \<lparr>install_ok = True, chrome_ok = True, stealth_ok = True, get_ok = True,
      scroll_ok = (\<lambda>i. True),
      find_imgs = Some [photo ''https://m.cdn/a.jpg'', photo ''https://m.cdn/logo.png'',
                        photo ''https://m.cdn/b.jpg'', photo ''https://m.cdn/a.jpg'',
                        photo ''https://m.cdn/c.jpg''],
      quit_ok = True\<rparr>"

definition known_user :: db_user where
  "known_user = \<lparr>db_id = 7\<rparr>"

text \<open>A known user with two requests today; the store, the chat and the browser work.\<close>

definition quiet_day :: world where
  "quiet_day =
     \<lparr>users_select = Some [known_user], users_insert = None,
      users_update = Some [known_user], usage_select = (\<lambda>user_id. Some [1, 2]),
      usage_insert = Some [3], telegram_ok = (\<lambda>ev. True), chrome = page_with_photos\<rparr>"

text \<open>The same user after five requests today.\<close>

definition fifth_request_done :: world where
  "fifth_request_done = quiet_day\<lparr>usage_select := (\<lambda>user_id. Some [1, 2, 3, 4, 5])\<rparr>"

text \<open>The query on \<^verbatim>\<open>usage_logs\<close> raises.\<close>

definition usage_query_down :: world where
  "usage_query_down = quiet_day\<lparr>usage_select := (\<lambda>user_id. None)\<rparr>"

text \<open>The look-up of the user raises.\<close>

definition users_table_down :: world where
  "users_table_down = quiet_day\<lparr>users_select := None\<rparr>"

text \<open>The chat platform refuses the second photo of three and takes everything else.\<close>

definition second_photo_rejected :: world where
  "second_photo_rejected =
     quiet_day\<lparr>telegram_ok := (\<lambda>ev. ev \<noteq> SendPhoto ''https://m.cdn/b.jpg'' 2 3)\<rparr>"

text \<open>The chat platform refuses every photo.\<close>

definition photos_rejected :: world where
  "photos_rejected = quiet_day\<lparr>telegram_ok := (\<lambda>ev. \<not> is_send_photo ev)\<rparr>"

text \<open>The browser fails right after its start.\<close>

definition browser_crashes :: world where
  "browser_crashes = quiet_day\<lparr>chrome := crash_after_launch\<rparr>"

definition fifteen_urls :: "string list" where
  "fifteen_urls = map (\<lambda>c. ''https://m.cdn/'' @ [c]) ''abcdefghijklmno''"


section \<open>Properties of the extraction\<close>

subsection \<open>Strings\<close>

lemma startswith_iff: "startswith s p \<longleftrightarrow> (\<exists>b. s = p @ b)"
  by (induction s p rule: startswith.induct) auto

lemma contains_iff: "contains s p \<longleftrightarrow> (\<exists>a b. s = a @ p @ b)"
proof (induction s)
  case Nil
  then show ?case by auto
next
  case (Cons c cs)
  show ?case
  proof
    assume "contains (c # cs) p"
    then consider "startswith (c # cs) p" | "contains cs p" by auto
    then show "\<exists>a b. c # cs = a @ p @ b"
    proof cases
      case 1
      then obtain b where "c # cs = p @ b" using startswith_iff by blast
      then have "c # cs = [] @ p @ b" by simp
      then show ?thesis by blast
    next
      case 2
      then obtain a b where "cs = a @ p @ b" using Cons.IH by blast
      then have "c # cs = (c # a) @ p @ b" by simp
      then show ?thesis by blast
    qed
  next
    assume "\<exists>a b. c # cs = a @ p @ b"
    then obtain a b where ab: "c # cs = a @ p @ b" by blast
    show "contains (c # cs) p"
    proof (cases a)
      case Nil
      then have "startswith (c # cs) p" using ab startswith_iff by auto
      then show ?thesis by simp
    next
      case (Cons a0 as)
      then have "cs = as @ p @ b" using ab by simp
      then have "contains cs p" using Cons.IH by blast
      then show ?thesis by simp
    qed
  qed
qed

lemma process_img_Some:
  assumes "process_img img = Some s"
  shows "src_attr img = AttrStr s \<and> \<not> should_exclude s \<and> startswith s ''http'' \<and> \<not> size_check img"
  using assms
  by (auto simp: process_img_def process_img_body_def get_attribute_def
      split: attr.splits sum.splits option.splits if_splits)

lemma collect_images_set:
  "set (collect_images elems acc) = set acc \<union> {s. \<exists>img \<in> set elems. process_img img = Some s}"
  by (induction elems arbitrary: acc) (auto split: option.splits)

lemma dedupe_loop_append:
  "dedupe_loop xs seen acc = acc @ dedupe_loop xs seen []"
proof (induction xs arbitrary: seen acc)
  case Nil
  then show ?case by simp
next
  case (Cons x xs)
  show ?case
  proof (cases "x \<in> seen")
    case True
    then show ?thesis using Cons.IH [of seen acc] by simp
  next
    case False
    then show ?thesis
      using Cons.IH [of "insert x seen" "acc @ [x]"] Cons.IH [of "insert x seen" "[x]"] by simp
  qed
qed

lemma dedupe_loop_Cons:
  "dedupe_loop (x # xs) seen [] =
     (if x \<notin> seen then x # dedupe_loop xs (insert x seen) [] else dedupe_loop xs seen [])"
  using dedupe_loop_append [of xs "insert x seen" "[x]"] by simp

lemma dedupe_loop_set: "set (dedupe_loop xs seen []) = set xs - seen"
proof (induction xs arbitrary: seen)
  case Nil
  then show ?case by simp
next
  case (Cons x xs)
  show ?case unfolding dedupe_loop_Cons using Cons.IH by auto
qed

lemma dedupe_loop_distinct: "distinct (dedupe_loop xs seen [])"
proof (induction xs arbitrary: seen)
  case Nil
  then show ?case by simp
next
  case (Cons x xs)
  show ?case unfolding dedupe_loop_Cons using Cons.IH by (simp add: dedupe_loop_set)
qed

lemma first_index_Cons:
  "first_index (x # xs) y = (if y = x then 0 else Suc (first_index xs y))"
  by (simp add: first_index_def)

lemma dedupe_loop_order:
  "sorted_wrt (\<lambda>a b. first_index xs a < first_index xs b) (dedupe_loop xs seen [])"
proof (induction xs arbitrary: seen)
  case Nil
  then show ?case by simp
next
  case (Cons x xs)
  have shift: "sorted_wrt (\<lambda>a b. first_index (x # xs) a < first_index (x # xs) b)
                 (dedupe_loop xs s [])" if "x \<in> s" for s
  proof -
    have ne: "\<forall>a \<in> set (dedupe_loop xs s []). a \<noteq> x"
      using that by (auto simp: dedupe_loop_set)
    have "sorted_wrt (\<lambda>a b. first_index xs a < first_index xs b) (dedupe_loop xs s [])"
      by (rule Cons.IH)
    then show ?thesis
      by (rule sorted_wrt_mono_rel [rotated]) (use ne in \<open>auto simp: first_index_Cons\<close>)
  qed
  show ?case
  proof (cases "x \<in> seen")
    case True
    then show ?thesis unfolding dedupe_loop_Cons using shift [of seen] by simp
  next
    case False
    have "\<forall>a \<in> set (dedupe_loop xs (insert x seen) []). a \<noteq> x"
      by (auto simp: dedupe_loop_set)
    then show ?thesis
      unfolding dedupe_loop_Cons using False shift [of "insert x seen"]
      by (auto simp: first_index_Cons)
  qed
qed

subsection \<open>A run in which every call returns\<close>

lemma scroll_loop_ok:
  "fst (scroll_loop b is) = Inr () \<longleftrightarrow> (\<forall>i \<in> set is. scroll_ok b i)"
  by (induction "is") (auto split: prod.splits)

lemma extract_images_when_all_return:
  assumes "all_calls_return b" and "find_imgs b = Some elems"
  shows "fst (extract_images b post_url) = Inr (dedupe (collect_images elems []))"
proof -
  have "fst (scroll_loop b [0, 1, 2]) = Inr ()"
    using assms(1) unfolding scroll_loop_ok by (simp add: all_calls_return_def)
  then obtain evs where s: "scroll_loop b [0, 1, 2] = (Inr (), evs)"
    by (cases "scroll_loop b [0, 1, 2]") auto
  show ?thesis
    using assms s
    by (simp add: extract_images_def extract_images_body_def scrape_def
        load_and_collect_def all_calls_return_def)
qed

subsection \<open>The filter\<close>

text \<open>
  Claim C1.  An image element whose source, put in lower case, contains one of the eight
  patterns \<^verbatim>\<open>linkedin.com/in/\<close>, \<^verbatim>\<open>/company-logo/\<close>, \<^verbatim>\<open>/vector/\<close>, \<^verbatim>\<open>sprite\<close>, \<^verbatim>\<open>logo\<close>,
  \<^verbatim>\<open>icon\<close>, \<^verbatim>\<open>emoji\<close>, \<^verbatim>\<open>reaction\<close> is never appended to \<^verbatim>\<open>images\<close>, whatever its other
  attributes are (width and height among them), and such a source is in no list that
  \<^verbatim>\<open>extract_images\<close> returns.
\<close>

theorem denylisted_source_excluded:
  assumes "src_attr img = AttrStr src"
    and "pattern \<in> set [''linkedin.com/in/'', ''/company-logo/'', ''/vector/'', ''sprite'',
                         ''logo'', ''icon'', ''emoji'', ''reaction'']"
    and "lower src = before @ pattern @ after"
  shows "process_img img = None \<and> src \<notin> set (collect_images elems []) \<and>
         (\<forall>imgs. fst (extract_images b post_url) = Inr imgs \<longrightarrow> src \<notin> set imgs)"
proof -
  have "contains (lower src) pattern" using assms(3) contains_iff by blast
  then have ex: "should_exclude src"
    using assms(2) unfolding should_exclude_def exclude_patterns_def list_ex_iff by blast
  have one: "process_img img = None"
    using assms(1) ex
    by (auto simp: process_img_def process_img_body_def get_attribute_def
        split: attr.splits sum.splits option.splits)
  have never: "src \<notin> set (collect_images es [])" for es
    using ex process_img_Some by (auto simp: collect_images_set)
  have "src \<notin> set imgs" if "fst (extract_images b post_url) = Inr imgs" for imgs
  proof -
    have "set imgs \<subseteq> (\<Union>es. set (collect_images es []))"
      using that
      by (auto simp: extract_images_def extract_images_body_def scrape_def
          load_and_collect_def dedupe_def dedupe_loop_set
          split: prod.splits sum.splits if_splits option.splits)
    then show ?thesis using never by blast
  qed
  then show ?thesis using one never by blast
qed

theorem denylisted_source_excluded_witness:
  "src_attr \<lparr>src_attr = AttrStr ''https://m.cdn/Logo.png'', alt_attr = AttrNone,
              width_attr = AttrStr ''800'', height_attr = AttrStr ''600''\<rparr>
     = AttrStr ''https://m.cdn/Logo.png'' \<and>
   lower ''https://m.cdn/Logo.png'' = ''https://m.cdn/'' @ ''logo'' @ ''.png'' \<and>
   process_img \<lparr>src_attr = AttrStr ''https://m.cdn/Logo.png'', alt_attr = AttrNone,
                 width_attr = AttrStr ''800'', height_attr = AttrStr ''600''\<rparr> = None"
proof -
  have l: "lower ''https://m.cdn/Logo.png'' = ''https://m.cdn/'' @ ''logo'' @ ''.png''"
    by code_simp
  have m: "''logo'' \<in> set [''linkedin.com/in/'', ''/company-logo/'', ''/vector/'', ''sprite'',
                             ''logo'', ''icon'', ''emoji'', ''reaction'']"
    by simp
  show ?thesis
    using denylisted_source_excluded [OF _ m l, of
        "\<lparr>src_attr = AttrStr ''https://m.cdn/Logo.png'', alt_attr = AttrNone,
          width_attr = AttrStr ''800'', height_attr = AttrStr ''600''\<rparr>" "[]"] l
    by simp
qed

text \<open>
  Claim C2.  Take an element whose \<^verbatim>\<open>src\<close> and \<^verbatim>\<open>alt\<close> can be read and whose source
  passes the deny list and starts with \<^verbatim>\<open>http\<close>.  If width and height both read as
  integers and one of them is below 50, the element is skipped.  If the width or the
  height is missing (\<^verbatim>\<open>None\<close> or the empty string), the element is appended, whatever
  the other dimension is.
\<close>

theorem size_filter:
  assumes "src_attr img = AttrStr src" and "alt_attr img \<noteq> AttrRaises"
    and "\<not> should_exclude src" and "startswith src ''http''"
  shows "(width_attr img = AttrStr ws \<and> height_attr img = AttrStr hs \<and>
          py_int ws = Some w \<and> py_int hs = Some h \<and> (w < 50 \<or> h < 50)
            \<longrightarrow> process_img img = None) \<and>
         (width_attr img \<in> {AttrNone, AttrStr []} \<or> height_attr img \<in> {AttrNone, AttrStr []}
            \<longrightarrow> process_img img = Some src)"
proof -
  have nd: "\<not> startswith src ''data:''" "src \<noteq> []"
    using assms(4) by (auto simp: startswith_iff)
  have body: "process_img img = (if size_check img then None else Some src)"
    using assms nd
    by (auto simp: process_img_def process_img_body_def get_attribute_def
        split: attr.splits)
  have ne: "s \<noteq> []" if "py_int s = Some v" for s v
    using that by (auto simp: py_int_def Let_def split: if_splits)
  have small: "size_check img"
    if "width_attr img = AttrStr ws" "height_attr img = AttrStr hs"
      "py_int ws = Some w" "py_int hs = Some h" "w < 50 \<or> h < 50"
    using that ne [of ws w] ne [of hs h]
    by (auto simp: size_check_def size_check_body_def get_attribute_def)
  have keep: "\<not> size_check img"
    if "width_attr img \<in> {AttrNone, AttrStr []} \<or> height_attr img \<in> {AttrNone, AttrStr []}"
    using that
    by (auto simp: size_check_def size_check_body_def get_attribute_def
        split: attr.splits)
  show ?thesis using body small keep by auto
qed

theorem size_filter_witness:
  "process_img \<lparr>src_attr = AttrStr ''https://m.cdn/a.jpg'', alt_attr = AttrStr ''photo'',
                 width_attr = AttrStr ''40'', height_attr = AttrStr ''600''\<rparr> = None \<and>
   process_img \<lparr>src_attr = AttrStr ''https://m.cdn/a.jpg'', alt_attr = AttrStr ''photo'',
                 width_attr = AttrNone, height_attr = AttrStr ''10''\<rparr>
     = Some ''https://m.cdn/a.jpg''"
proof -
  have ok: "\<not> should_exclude ''https://m.cdn/a.jpg''" by code_simp
  have http: "startswith ''https://m.cdn/a.jpg'' ''http''" by simp
  have w: "py_int ''40'' = Some 40" by code_simp
  have h: "py_int ''600'' = Some 600" by code_simp
  have a: "process_img \<lparr>src_attr = AttrStr ''https://m.cdn/a.jpg'', alt_attr = AttrStr ''photo'',
                 width_attr = AttrStr ''40'', height_attr = AttrStr ''600''\<rparr> = None"
    using size_filter [OF _ _ ok http, of
        "\<lparr>src_attr = AttrStr ''https://m.cdn/a.jpg'', alt_attr = AttrStr ''photo'',
          width_attr = AttrStr ''40'', height_attr = AttrStr ''600''\<rparr>" "''40''" "''600''" 40 600]
      w h
    by simp
  have b: "process_img \<lparr>src_attr = AttrStr ''https://m.cdn/a.jpg'', alt_attr = AttrStr ''photo'',
                 width_attr = AttrNone, height_attr = AttrStr ''10''\<rparr>
     = Some ''https://m.cdn/a.jpg''"
    using size_filter [OF _ _ ok http, of
        "\<lparr>src_attr = AttrStr ''https://m.cdn/a.jpg'', alt_attr = AttrStr ''photo'',
          width_attr = AttrNone, height_attr = AttrStr ''10''\<rparr>"]
    by simp
  show ?thesis using a b by simp
qed

subsection \<open>Duplicates\<close>

text \<open>
  Claim C8.  The list without duplicates holds every accepted URL exactly once, and its
  order is the order of the first occurrences: of two URLs of the result, the earlier one
  occurs first in the accepted sequence.  This is the list the routine returns when it
  reaches its \<^verbatim>\<open>return\<close>, the accepted sequence being what the loop over the image
  elements has collected.
\<close>

theorem dedupe_first_seen_order:
  "distinct (dedupe images) \<and> set (dedupe images) = set images \<and>
   sorted_wrt (\<lambda>a b. first_index images a < first_index images b) (dedupe images) \<and>
   (all_calls_return b \<and> find_imgs b = Some elems
      \<longrightarrow> fst (extract_images b post_url) = Inr (dedupe (collect_images elems [])))"
  by (simp add: dedupe_def dedupe_loop_distinct dedupe_loop_set dedupe_loop_order
      extract_images_when_all_return [unfolded dedupe_def])

theorem dedupe_first_seen_order_witness:
  "dedupe [''b'', ''a'', ''b'', ''c'', ''a''] = [''b'', ''a'', ''c''] \<and>
   distinct (dedupe [''b'', ''a'', ''b'', ''c'', ''a'']) \<and>
   sorted_wrt (\<lambda>x y. first_index [''b'', ''a'', ''b'', ''c'', ''a''] x
                       < first_index [''b'', ''a'', ''b'', ''c'', ''a''] y)
     (dedupe [''b'', ''a'', ''b'', ''c'', ''a'']) \<and>
   all_calls_return page_with_photos \<and>
   fst (extract_images page_with_photos ''https://www.linkedin.com/posts/x'')
     = Inr (dedupe [''https://m.cdn/a.jpg'', ''https://m.cdn/b.jpg'',
                    ''https://m.cdn/a.jpg'', ''https://m.cdn/c.jpg''])"
proof -
  let ?elems = "[photo ''https://m.cdn/a.jpg'', photo ''https://m.cdn/logo.png'',
                 photo ''https://m.cdn/b.jpg'', photo ''https://m.cdn/a.jpg'',
                 photo ''https://m.cdn/c.jpg'']"
  have ok: "all_calls_return page_with_photos"
    by (simp add: all_calls_return_def page_with_photos_def)
  have f: "find_imgs page_with_photos = Some ?elems"
    by (simp add: page_with_photos_def)
  have c: "collect_images ?elems []
             = [''https://m.cdn/a.jpg'', ''https://m.cdn/b.jpg'',
                ''https://m.cdn/a.jpg'', ''https://m.cdn/c.jpg'']"
    by code_simp
  have d: "dedupe [''b'', ''a'', ''b'', ''c'', ''a''] = [''b'', ''a'', ''c'']"
    by (simp add: dedupe_def)
  show ?thesis
    using dedupe_first_seen_order [of "[''b'', ''a'', ''b'', ''c'', ''a'']" page_with_photos
        ?elems "''https://www.linkedin.com/posts/x''"] ok f c d
    by simp
qed

subsection \<open>The browser session\<close>

text \<open>
  Claim C5 asks that the driver is quit on every path that follows its creation.  The
  script run between \<^verbatim>\<open>webdriver.Chrome(...)\<close> and the inner \<^verbatim>\<open>try\<close> is outside the
  \<^verbatim>\<open>finally\<close>: when it raises, the routine returns the empty list and the driver is
  never quit.
\<close>

theorem session_left_open_when_first_script_raises:
  "extract_images crash_after_launch ''https://www.linkedin.com/posts/x''
     = (Inr [], [InstallDriver, StartChrome, SessionCreated, ExecuteScript]) \<and>
   session_leaked (snd (extract_images crash_after_launch ''https://www.linkedin.com/posts/x''))"
  by (simp add: extract_images_def extract_images_body_def crash_after_launch_def
      session_leaked_def)

text \<open>Once that script has returned, every path quits the driver.\<close>

lemma session_released_when_first_script_returns:
  assumes "stealth_ok b"
  shows "\<not> session_leaked (snd (extract_images b post_url))"
  using assms
  by (auto simp: extract_images_def extract_images_body_def scrape_def session_leaked_def
      split: prod.splits sum.splits if_splits)

text \<open>
  Claim C6.  \<^verbatim>\<open>extract_images\<close> always returns a list.  The list is empty as soon as a
  call to the browser raises (installing the driver, starting Chrome, a script,
  navigation, listing the elements, quitting); when all of them return it is the
  list of the accepted sources without duplicates, where an element whose attributes
  cannot be read is left out and the others stay.  The exceptions of the model are
  those of class \<^verbatim>\<open>Exception\<close>, which is what the browser driver raises.
\<close>

theorem extract_images_never_raises:
  "\<exists>imgs. fst (extract_images b post_url) = Inr imgs \<and>
      (\<not> all_calls_return b \<longrightarrow> imgs = []) \<and>
      (\<forall>elems. all_calls_return b \<and> find_imgs b = Some elems
          \<longrightarrow> imgs = dedupe (collect_images elems []))"
proof (cases "all_calls_return b")
  case True
  then obtain elems where e: "find_imgs b = Some elems"
    by (auto simp: all_calls_return_def)
  have "fst (extract_images b post_url) = Inr (dedupe (collect_images elems []))"
    using True e by (rule extract_images_when_all_return)
  then show ?thesis using True e by simp
next
  case False
  have "fst (scroll_loop b [0, 1, 2]) \<noteq> Inr ()" if "\<not> (scroll_ok b 0 \<and> scroll_ok b 1 \<and> scroll_ok b 2)"
    using that unfolding scroll_loop_ok by auto
  then have "fst (extract_images b post_url) = Inr []"
    using False
    by (auto simp: extract_images_def extract_images_body_def scrape_def
        load_and_collect_def all_calls_return_def dedupe_def
        split: prod.splits sum.splits option.splits)
  then show ?thesis using False by simp
qed

theorem extract_images_never_raises_witness:
  "all_calls_return page_with_photos \<and> \<not> all_calls_return crash_after_launch \<and>
   fst (extract_images page_with_photos ''https://www.linkedin.com/posts/x'')
     = Inr [''https://m.cdn/a.jpg'', ''https://m.cdn/b.jpg'', ''https://m.cdn/c.jpg''] \<and>
   fst (extract_images crash_after_launch ''https://www.linkedin.com/posts/x'') = Inr []"
proof -
  let ?t = "''https://www.linkedin.com/posts/x''"
  let ?elems = "[photo ''https://m.cdn/a.jpg'', photo ''https://m.cdn/logo.png'',
                 photo ''https://m.cdn/b.jpg'', photo ''https://m.cdn/a.jpg'',
                 photo ''https://m.cdn/c.jpg'']"
  have ok: "all_calls_return page_with_photos"
    by (simp add: all_calls_return_def page_with_photos_def)
  have f: "find_imgs page_with_photos = Some ?elems"
    by (simp add: page_with_photos_def)
  have bad: "\<not> all_calls_return crash_after_launch"
    by (simp add: all_calls_return_def crash_after_launch_def)
  have d: "dedupe (collect_images ?elems [])
             = [''https://m.cdn/a.jpg'', ''https://m.cdn/b.jpg'', ''https://m.cdn/c.jpg'']"
    by code_simp
  have 1: "fst (extract_images page_with_photos ?t)
             = Inr [''https://m.cdn/a.jpg'', ''https://m.cdn/b.jpg'', ''https://m.cdn/c.jpg'']"
    using extract_images_never_raises [of page_with_photos ?t] ok f d by auto
  have 2: "fst (extract_images crash_after_launch ?t) = Inr []"
    using extract_images_never_raises [of crash_after_launch ?t] bad by auto
  show ?thesis using ok bad 1 2 by blast
qed

section \<open>Properties of the handler\<close>

subsection \<open>The delivery loop\<close>

lemma send_loop_unfold:
  "send_loop w n i imgs sc fc =
     (sc + length (filter (photo_sent w n) (enumerate i imgs)),
      fc + length (filter (\<lambda>item. \<not> photo_sent w n item) (enumerate i imgs)),
      concat (map (item_events w n) (enumerate i imgs)))"
proof (induction imgs arbitrary: i sc fc)
  case Nil
  then show ?case by simp
next
  case (Cons u rest)
  show ?case
  proof (cases "telegram_ok w (SendPhoto u (i + 1) n)")
    case True
    then show ?thesis
      using Cons.IH [of "Suc i" "sc + 1" fc] by (simp add: photo_sent_def item_events_def)
  next
    case False
    then show ?thesis
      using Cons.IH [of "Suc i" sc "fc + 1"] by (simp add: photo_sent_def item_events_def)
  qed
qed

lemma filter_split_length:
  "length (filter P xs) + length (filter (\<lambda>x. \<not> P x) xs) = length xs"
  by (induction xs) auto

lemma photo_events:
  "filter is_send_photo (concat (map (item_events w n) items))
     = map (\<lambda>item. SendPhoto (snd item) (fst item + 1) n) items"
  by (induction items) (auto simp: item_events_def is_send_photo_def)

lemma no_log_in_items:
  "filter is_log_usage (concat (map (item_events w n) items)) = []"
  by (induction items) (auto simp: item_events_def is_log_usage_def)

lemma sent_photos_in_items:
  "length (filter (\<lambda>e. is_send_photo e \<and> telegram_ok w e)
             (concat (map (item_events w n) items)))
     = length (filter (photo_sent w n) items)"
  by (induction items) (auto simp: item_events_def photo_sent_def is_send_photo_def)

lemma refused_photos_in_items:
  "length (filter (\<lambda>e. is_send_photo e \<and> \<not> telegram_ok w e)
             (concat (map (item_events w n) items)))
     = length (filter (\<lambda>item. \<not> photo_sent w n item) items)"
  by (induction items) (auto simp: item_events_def photo_sent_def is_send_photo_def)

lemma deliver_trace:
  assumes "found \<noteq> []"
    and "telegram_ok w (EditText (FoundImages (length (take 10 found))))"
  shows "deliver w user url found =
           (Inr (length (filter (photo_sent w (length (take 10 found)))
                           (enumerate 0 (take 10 found))),
                 length (filter (\<lambda>item. \<not> photo_sent w (length (take 10 found)) item)
                           (enumerate 0 (take 10 found)))),
            EditText (FoundImages (length (take 10 found)))
              # concat (map (item_events w (length (take 10 found)))
                          (enumerate 0 (take 10 found)))
              @ [LogUsage (db_id user) url
                   (length (filter (photo_sent w (length (take 10 found)))
                              (enumerate 0 (take 10 found))))])"
proof -
  let ?imgs = "take 10 found"
  let ?n = "length ?imgs"
  have pos: "length (filter (photo_sent w ?n) (enumerate 0 ?imgs))
           + length (filter (\<lambda>item. \<not> photo_sent w ?n item) (enumerate 0 ?imgs)) > 0"
    using assms(1) unfolding filter_split_length by (cases found) auto
  show ?thesis
    using assms(2) pos
    by (auto simp: deliver_def Let_def send_loop_unfold log_usage_def split: option.splits)
qed

subsection \<open>Events that are no entry of the usage log\<close>

lemma scroll_loop_no_log: "filter is_log_usage (snd (scroll_loop b is)) = []"
  by (induction "is") (auto simp: is_log_usage_def split: prod.splits)

lemma extract_images_no_log: "filter is_log_usage (snd (extract_images b post_url)) = []"
proof -
  have s: "filter is_log_usage evs = []" if "scroll_loop b [0, 1, 2] = (r, evs)" for r evs
    using scroll_loop_no_log [of b "[0, 1, 2]"] that by simp
  show ?thesis
    by (auto simp: extract_images_def extract_images_body_def scrape_def load_and_collect_def
        is_log_usage_def s split: prod.splits sum.splits option.splits)
qed

lemma get_or_create_user_events:
  "set (snd (get_or_create_user w)) \<subseteq> {UsersSelect, UsersInsert, UsersUpdate}"
  by (auto simp: get_or_create_user_def split: option.splits if_splits)

lemma get_or_create_user_no_log: "filter is_log_usage (snd (get_or_create_user w)) = []"
  by (auto simp: get_or_create_user_def is_log_usage_def split: option.splits)

lemma process_post_no_log:
  assumes "fst (extract_images (chrome w) url) = Inr []"
  shows "filter is_log_usage (snd (process_post w user k url)) = []"
proof -
  obtain evs where e: "extract_images (chrome w) url = (Inr [], evs)"
    using assms by (cases "extract_images (chrome w) url") auto
  have "filter is_log_usage evs = []"
    using extract_images_no_log [of "chrome w" url] e by simp
  then show ?thesis
    by (simp add: process_post_def e telegram_def is_log_usage_def)
qed

lemma no_log_without_images:
  assumes "fst (extract_images (chrome w) (strip message_text)) = Inr []"
  shows "filter is_log_usage (snd (handle_url w message_text)) = []"
proof -
  obtain u uevs where g: "get_or_create_user w = (u, uevs)"
    by (cases "get_or_create_user w") auto
  have ul: "filter is_log_usage uevs = []"
    using get_or_create_user_no_log [of w] g by simp
  show ?thesis
  proof (cases u)
    case None
    then show ?thesis
      by (simp add: handle_url_def g telegram_def is_log_usage_def ul)
  next
    case (Some user)
    obtain k qevs where q: "get_today_usage w (db_id user) = (k, qevs)"
      by (cases "get_today_usage w (db_id user)") auto
    have ql: "filter is_log_usage qevs = []"
      using q by (auto simp: get_today_usage_def is_log_usage_def split: option.splits)
    obtain r pevs where p: "process_post w user k (strip message_text) = (r, pevs)"
      by (cases "process_post w user k (strip message_text)") auto
    have pl: "filter is_log_usage pevs = []"
      using process_post_no_log [OF assms, of user k] p by simp
    show ?thesis
      by (cases r)
        (simp_all add: handle_url_def g Some q p telegram_def Let_def is_log_usage_def ul ql pl)
  qed
qed

subsection \<open>The quota\<close>

text \<open>
  Claim C3.  When the store returns the user and answers the query of today's usage with
  five rows or more, the handler does four things and no more: the look-up and the
  update (or insert) of the user, the query, and the reply that the limit is reached.
  No call to the browser, no photo or link, no entry in the usage log.
\<close>

theorem quota_gate:
  assumes "fst (get_or_create_user w) = Some user"
    and "usage_select w (db_id user) = Some rows"
    and "length rows \<ge> 5"
  shows "snd (handle_url w message_text)
           = snd (get_or_create_user w) @ [UsageSelect (db_id user), ReplyText LimitReached] \<and>
         set (snd (get_or_create_user w)) \<subseteq> {UsersSelect, UsersInsert, UsersUpdate}"
  using assms get_or_create_user_events [of w]
  by (cases "get_or_create_user w")
    (simp add: handle_url_def get_today_usage_def telegram_def split: prod.splits)

theorem quota_gate_witness:
  "fst (get_or_create_user fifth_request_done) = Some known_user \<and>
   usage_select fifth_request_done (db_id known_user) = Some [1, 2, 3, 4, 5] \<and>
   snd (handle_url fifth_request_done ''https://www.linkedin.com/posts/x'')
     = [UsersSelect, UsersUpdate, UsageSelect 7, ReplyText LimitReached]"
proof -
  have u: "fst (get_or_create_user fifth_request_done) = Some known_user"
    by (simp add: get_or_create_user_def fifth_request_done_def quiet_day_def first_row_def)
  have r: "usage_select fifth_request_done (db_id known_user) = Some [1, 2, 3, 4, 5]"
    by (simp add: fifth_request_done_def quiet_day_def)
  have n: "length [1, 2, 3, 4, 5 :: nat] \<ge> 5" by simp
  have e: "snd (get_or_create_user fifth_request_done) = [UsersSelect, UsersUpdate]"
    by (simp add: get_or_create_user_def fifth_request_done_def quiet_day_def first_row_def)
  have i: "db_id known_user = 7" by (simp add: known_user_def)
  show ?thesis
    using quota_gate [OF u r n, of "''https://www.linkedin.com/posts/x''"] u r e i by simp
qed

text \<open>
  Claim C10.  When the query of today's usage raises, \<^verbatim>\<open>get_today_usage\<close> returns 0.  The
  handler then goes on as for a user under the limit: for a message that contains
  \<^verbatim>\<open>linkedin.com\<close>, once the processing message is sent, it runs the extraction.  When
  the user cannot be obtained, the handler replies with the account error and stops.
\<close>

theorem quota_fails_open:
  "(usage_select w user_id = None \<longrightarrow> fst (get_today_usage w user_id) = 0) \<and>
   (fst (get_or_create_user w) = Some user \<and> usage_select w (db_id user) = None \<and>
    contains (strip message_text) ''linkedin.com'' \<and> telegram_ok w (ReplyText Processing)
      \<longrightarrow> (\<exists>rest. snd (handle_url w message_text)
             = snd (get_or_create_user w) @ [UsageSelect (db_id user), ReplyText Processing]
               @ snd (extract_images (chrome w) (strip message_text)) @ rest)) \<and>
   (fst (get_or_create_user w) = None
      \<longrightarrow> snd (handle_url w message_text)
            = snd (get_or_create_user w) @ [ReplyText AccountError])"
proof -
  have a: "usage_select w user_id = None \<longrightarrow> fst (get_today_usage w user_id) = 0"
    by (simp add: get_today_usage_def)
  have p: "\<exists>rest. snd (process_post w user 0 url) = snd (extract_images (chrome w) url) @ rest"
    for url
    by (auto simp: process_post_def split: prod.splits sum.splits if_splits)
  have b: "\<exists>rest. snd (handle_url w message_text)
             = snd (get_or_create_user w) @ [UsageSelect (db_id user), ReplyText Processing]
               @ snd (extract_images (chrome w) (strip message_text)) @ rest"
    if "fst (get_or_create_user w) = Some user" "usage_select w (db_id user) = None"
      "contains (strip message_text) ''linkedin.com''" "telegram_ok w (ReplyText Processing)"
  proof -
    obtain rest where r: "snd (process_post w user 0 (strip message_text))
        = snd (extract_images (chrome w) (strip message_text)) @ rest"
      using p by blast
    show ?thesis
      using that r
      by (cases "get_or_create_user w"; cases "process_post w user 0 (strip message_text)")
        (auto simp: handle_url_def get_today_usage_def telegram_def Let_def
          split: prod.splits sum.splits)
  qed
  have c: "snd (handle_url w message_text) = snd (get_or_create_user w) @ [ReplyText AccountError]"
    if "fst (get_or_create_user w) = None"
    using that
    by (cases "get_or_create_user w") (simp add: handle_url_def telegram_def split: prod.splits)
  show ?thesis using a b c by blast
qed

theorem quota_fails_open_witness:
  "fst (get_today_usage usage_query_down 7) = 0 \<and>
   (\<exists>rest. snd (handle_url usage_query_down ''https://www.linkedin.com/posts/x'')
      = [UsersSelect, UsersUpdate, UsageSelect 7, ReplyText Processing]
        @ snd (extract_images page_with_photos ''https://www.linkedin.com/posts/x'') @ rest) \<and>
   snd (handle_url users_table_down ''https://www.linkedin.com/posts/x'')
     = [UsersSelect, ReplyText AccountError]"
proof -
  let ?t = "''https://www.linkedin.com/posts/x''"
  have q: "usage_select usage_query_down 7 = None"
    by (simp add: usage_query_down_def quiet_day_def)
  have u: "fst (get_or_create_user usage_query_down) = Some known_user"
    by (simp add: get_or_create_user_def usage_query_down_def quiet_day_def first_row_def)
  have e: "snd (get_or_create_user usage_query_down) = [UsersSelect, UsersUpdate]"
    by (simp add: get_or_create_user_def usage_query_down_def quiet_day_def first_row_def)
  have i: "db_id known_user = 7" by (simp add: known_user_def)
  have s: "strip ?t = ?t" by code_simp
  have l: "contains (strip ?t) ''linkedin.com''" by code_simp
  have t: "telegram_ok usage_query_down (ReplyText Processing)"
    by (simp add: usage_query_down_def quiet_day_def)
  have c: "chrome usage_query_down = page_with_photos"
    by (simp add: usage_query_down_def quiet_day_def)
  have n: "fst (get_or_create_user users_table_down) = None"
    by (simp add: get_or_create_user_def users_table_down_def quiet_day_def)
  have ne: "snd (get_or_create_user users_table_down) = [UsersSelect]"
    by (simp add: get_or_create_user_def users_table_down_def quiet_day_def)
  have 1: "fst (get_today_usage usage_query_down 7) = 0"
    using quota_fails_open [of usage_query_down 7] q by simp
  have 2: "\<exists>rest. snd (handle_url usage_query_down ?t)
      = [UsersSelect, UsersUpdate, UsageSelect 7, ReplyText Processing]
        @ snd (extract_images page_with_photos ?t) @ rest"
    using quota_fails_open [of usage_query_down 7 known_user ?t] u q l t e i c s by simp
  have 3: "snd (handle_url users_table_down ?t) = [UsersSelect, ReplyText AccountError]"
    using quota_fails_open [of users_table_down 7 known_user ?t] n ne by simp
  show ?thesis using 1 2 3 by blast
qed

subsection \<open>Counters, cap and usage log\<close>

text \<open>
  Claim C4.  For a list of candidates that is not empty and whose delivery starts (the
  status message is sent), the events of the delivery are the status message, then for
  each of the first ten candidates, in order, its photo followed by a pause or by the
  fallback message, then one entry of the usage log, and nothing else.  The success count
  is the number of photo calls of this trace that returned, the failure count the number
  of photo calls that raised; the fallback messages count for neither.  The entry of the
  usage log is the last event, the only one of its kind, and carries the success count.
  A request whose extraction returns no image writes no entry at all.
\<close>

theorem delivery_counts_and_usage_log:
  "(found \<noteq> [] \<and> telegram_ok w (EditText (FoundImages (length (take 10 found))))
      \<longrightarrow> (\<exists>success_count failed_count evs.
             deliver w user url found =
               (Inr (success_count, failed_count),
                EditText (FoundImages (length (take 10 found)))
                  # evs @ [LogUsage (db_id user) url success_count]) \<and>
             evs = concat (map (item_events w (length (take 10 found)))
                             (enumerate 0 (take 10 found))) \<and>
             success_count
               = length (filter (\<lambda>e. is_send_photo e \<and> telegram_ok w e) evs) \<and>
             failed_count
               = length (filter (\<lambda>e. is_send_photo e \<and> \<not> telegram_ok w e) evs) \<and>
             filter is_log_usage evs = [])) \<and>
   (fst (extract_images (chrome w) (strip message_text)) = Inr []
      \<longrightarrow> filter is_log_usage (snd (handle_url w message_text)) = [])"
  using deliver_trace [of found w user url] no_log_without_images [of w message_text]
  by (simp add: sent_photos_in_items refused_photos_in_items no_log_in_items)

theorem delivery_counts_and_usage_log_witness:
  "deliver second_photo_rejected known_user ''https://www.linkedin.com/posts/x''
     [''https://m.cdn/a.jpg'', ''https://m.cdn/b.jpg'', ''https://m.cdn/c.jpg'']
     = (Inr (2, 1),
        [EditText (FoundImages 3),
         SendPhoto ''https://m.cdn/a.jpg'' 1 3, Sleep 1,
         SendPhoto ''https://m.cdn/b.jpg'' 2 3, SendMessage 2 ''https://m.cdn/b.jpg'',
         SendPhoto ''https://m.cdn/c.jpg'' 3 3, Sleep 1,
         LogUsage 7 ''https://www.linkedin.com/posts/x'' 2]) \<and>
   filter is_log_usage (snd (handle_url browser_crashes ''https://www.linkedin.com/posts/x'')) = []"
proof -
  let ?t = "''https://www.linkedin.com/posts/x''"
  let ?l = "[''https://m.cdn/a.jpg'', ''https://m.cdn/b.jpg'', ''https://m.cdn/c.jpg'']"
  have ne: "?l \<noteq> []" by simp
  have st: "telegram_ok second_photo_rejected (EditText (FoundImages (length (take 10 ?l))))"
    by (simp add: second_photo_rejected_def quiet_day_def)
  have ev: "concat (map (item_events second_photo_rejected (length (take 10 ?l)))
                      (enumerate 0 (take 10 ?l)))
              = [SendPhoto ''https://m.cdn/a.jpg'' 1 3, Sleep 1,
                 SendPhoto ''https://m.cdn/b.jpg'' 2 3, SendMessage 2 ''https://m.cdn/b.jpg'',
                 SendPhoto ''https://m.cdn/c.jpg'' 3 3, Sleep 1]"
    by (simp add: item_events_def photo_sent_def second_photo_rejected_def quiet_day_def)
  have tg: "telegram_ok second_photo_rejected = (\<lambda>ev. ev \<noteq> SendPhoto ''https://m.cdn/b.jpg'' 2 3)"
    by (simp add: second_photo_rejected_def quiet_day_def)
  have i: "db_id known_user = 7" by (simp add: known_user_def)
  have s: "strip ?t = ?t" by code_simp
  have x: "fst (extract_images (chrome browser_crashes) (strip ?t)) = Inr []"
    by (simp add: browser_crashes_def quiet_day_def extract_images_def extract_images_body_def
        crash_after_launch_def)
  have 1: "deliver second_photo_rejected known_user ?t ?l
     = (Inr (2, 1),
        [EditText (FoundImages 3),
         SendPhoto ''https://m.cdn/a.jpg'' 1 3, Sleep 1,
         SendPhoto ''https://m.cdn/b.jpg'' 2 3, SendMessage 2 ''https://m.cdn/b.jpg'',
         SendPhoto ''https://m.cdn/c.jpg'' 3 3, Sleep 1,
         LogUsage 7 ?t 2])"
    using delivery_counts_and_usage_log [of ?l second_photo_rejected known_user ?t]
      ne st unfolding ev i by (auto simp: tg is_send_photo_def)
  have 2: "filter is_log_usage (snd (handle_url browser_crashes ?t)) = []"
    using delivery_counts_and_usage_log [of ?l browser_crashes known_user ?t ?t] x by blast
  show ?thesis using 1 2 by blast
qed

text \<open>
  Claim C7.  For a list of more than ten candidates whose delivery starts, the events of
  the delivery are: the status message, which announces ten images; for each of the first
  ten candidates, in order and numbered 1 to 10 of 10, its photo followed by a pause or by
  its fallback message; the entry of the usage log.  Nothing is sent or said for a
  candidate beyond the tenth.  Each of the ten items is counted once, as a success when
  its photo was sent and as a failure when not, so the two counters add up to 10, hence
  to at most 10.
\<close>

theorem delivery_capped_at_ten:
  assumes "length found > 10"
    and "telegram_ok w (EditText (FoundImages 10))"
  shows "\<exists>success_count failed_count evs.
           deliver w user url found
             = (Inr (success_count, failed_count),
                EditText (FoundImages 10) # evs @ [LogUsage (db_id user) url success_count]) \<and>
           evs = concat (map (item_events w 10) (enumerate 0 (take 10 found))) \<and>
           filter is_send_photo evs
             = map (\<lambda>item. SendPhoto (snd item) (fst item + 1) 10) (enumerate 0 (take 10 found)) \<and>
           success_count = length (filter (photo_sent w 10) (enumerate 0 (take 10 found))) \<and>
           failed_count
             = length (filter (\<lambda>item. \<not> photo_sent w 10 item) (enumerate 0 (take 10 found))) \<and>
           success_count + failed_count = 10 \<and> success_count + failed_count \<le> 10"
proof -
  have n: "length (take 10 found) = 10" using assms(1) by simp
  have ne: "found \<noteq> []" using assms(1) by auto
  have pos: "length (filter (photo_sent w 10) (enumerate 0 (take 10 found)))
           + length (filter (\<lambda>item. \<not> photo_sent w 10 item) (enumerate 0 (take 10 found))) = 10"
    unfolding filter_split_length using n by simp
  have d: "deliver w user url found =
           (Inr (length (filter (photo_sent w 10) (enumerate 0 (take 10 found))),
                 length (filter (\<lambda>item. \<not> photo_sent w 10 item) (enumerate 0 (take 10 found)))),
            EditText (FoundImages 10)
              # concat (map (item_events w 10) (enumerate 0 (take 10 found)))
              @ [LogUsage (db_id user) url
                   (length (filter (photo_sent w 10) (enumerate 0 (take 10 found))))])"
    using deliver_trace [OF ne, of w user url] assms(2) unfolding n by simp
  show ?thesis
    using d pos by (simp add: photo_events)
qed

theorem delivery_capped_at_ten_witness:
  "length fifteen_urls = 15 \<and>
   deliver quiet_day known_user ''https://www.linkedin.com/posts/x'' fifteen_urls
     = (Inr (10, 0),
        [EditText (FoundImages 10),
         SendPhoto ''https://m.cdn/a'' 1 10, Sleep 1, SendPhoto ''https://m.cdn/b'' 2 10, Sleep 1,
         SendPhoto ''https://m.cdn/c'' 3 10, Sleep 1, SendPhoto ''https://m.cdn/d'' 4 10, Sleep 1,
         SendPhoto ''https://m.cdn/e'' 5 10, Sleep 1, SendPhoto ''https://m.cdn/f'' 6 10, Sleep 1,
         SendPhoto ''https://m.cdn/g'' 7 10, Sleep 1, SendPhoto ''https://m.cdn/h'' 8 10, Sleep 1,
         SendPhoto ''https://m.cdn/i'' 9 10, Sleep 1, SendPhoto ''https://m.cdn/j'' 10 10, Sleep 1,
         LogUsage 7 ''https://www.linkedin.com/posts/x'' 10])"
proof -
  let ?t = "''https://www.linkedin.com/posts/x''"
  have l: "length fifteen_urls = 15" by (simp add: fifteen_urls_def)
  have g: "length fifteen_urls > 10" using l by simp
  have t: "telegram_ok quiet_day (EditText (FoundImages 10))" by (simp add: quiet_day_def)
  have ev: "concat (map (item_events quiet_day 10) (enumerate 0 (take 10 fifteen_urls)))
      = [SendPhoto ''https://m.cdn/a'' 1 10, Sleep 1, SendPhoto ''https://m.cdn/b'' 2 10, Sleep 1,
         SendPhoto ''https://m.cdn/c'' 3 10, Sleep 1, SendPhoto ''https://m.cdn/d'' 4 10, Sleep 1,
         SendPhoto ''https://m.cdn/e'' 5 10, Sleep 1, SendPhoto ''https://m.cdn/f'' 6 10, Sleep 1,
         SendPhoto ''https://m.cdn/g'' 7 10, Sleep 1, SendPhoto ''https://m.cdn/h'' 8 10, Sleep 1,
         SendPhoto ''https://m.cdn/i'' 9 10, Sleep 1, SendPhoto ''https://m.cdn/j'' 10 10, Sleep 1]"
    by (simp add: item_events_def photo_sent_def quiet_day_def fifteen_urls_def)
  have sc: "length (filter (photo_sent quiet_day 10) (enumerate 0 (take 10 fifteen_urls))) = 10"
    by (simp add: photo_sent_def quiet_day_def fifteen_urls_def)
  have fc: "length (filter (\<lambda>item. \<not> photo_sent quiet_day 10 item)
                      (enumerate 0 (take 10 fifteen_urls))) = 0"
    by (simp add: photo_sent_def quiet_day_def)
  have i: "db_id known_user = 7" by (simp add: known_user_def)
  have "deliver quiet_day known_user ?t fifteen_urls
     = (Inr (10, 0),
        EditText (FoundImages 10)
          # concat (map (item_events quiet_day 10) (enumerate 0 (take 10 fifteen_urls)))
          @ [LogUsage 7 ?t 10])"
    using delivery_capped_at_ten [OF g t, of known_user ?t] unfolding sc fc i by auto
  then show ?thesis using l unfolding ev by simp
qed

subsection \<open>The pause between photos\<close>

text \<open>
  Claim C9 asks for a pause after every attempt, so that the chat platform does not
  throttle the bot.  The code pauses one second after a photo that was sent, with that
  very purpose in its comment, but the pause is the statement after \<^verbatim>\<open>send_photo\<close>
  inside the \<^verbatim>\<open>try\<close>: when the photo is refused it is skipped, and the branch of the
  failure makes its own call for the fallback message and goes on at once.  With two
  photos refused in a row, four calls reach the platform and no pause separates them.
\<close>

theorem no_delay_after_failed_send:
  "\<not> delay_after_each_attempt
        (snd (snd (send_loop photos_rejected 2 0
                     [''https://m.cdn/a.jpg'', ''https://m.cdn/b.jpg''] 0 0))) \<and>
   snd (snd (send_loop photos_rejected 2 0
               [''https://m.cdn/a.jpg'', ''https://m.cdn/b.jpg''] 0 0))
     = [SendPhoto ''https://m.cdn/a.jpg'' 1 2, SendMessage 1 ''https://m.cdn/a.jpg'',
        SendPhoto ''https://m.cdn/b.jpg'' 2 2, SendMessage 2 ''https://m.cdn/b.jpg'']"
  by (simp add: photos_rejected_def quiet_day_def is_send_photo_def is_sleep_def)

text \<open>
  The events of the loop in general, item after item: the photo and a pause of one
  second when the photo was sent; the photo and the fallback message, without a pause,
  when it was not.
\<close>

lemma send_loop_events:
  "snd (snd (send_loop w n 0 images 0 0)) = concat (map (item_events w n) (enumerate 0 images))"
  by (simp add: send_loop_unfold)

end
